theory Spec2Isabelle
  imports Main "HOL-Library.AList"
begin

section \<open>Decimal rendering of numbers\<close>

text \<open>
  A template literal renders a JavaScript integer in decimal, with a leading minus sign
  when it is negative.
\<close>

definition digit_char :: "nat \<Rightarrow> char" where
  "digit_char d =
     (if d = 0 then CHR ''0'' else if d = 1 then CHR ''1'' else if d = 2 then CHR ''2''
      else if d = 3 then CHR ''3'' else if d = 4 then CHR ''4'' else if d = 5 then CHR ''5''
      else if d = 6 then CHR ''6'' else if d = 7 then CHR ''7'' else if d = 8 then CHR ''8''
      else CHR ''9'')"

fun digits :: "nat \<Rightarrow> string" where
  "digits n = (if n < 10 then [digit_char n] else digits (n div 10) @ [digit_char (n mod 10)])"

definition show_int :: "int \<Rightarrow> string" where
  "show_int n = (if n < 0 then CHR ''-'' # digits (nat (- n)) else digits (nat n))"

definition is_digit :: "char \<Rightarrow> bool" where
  "is_digit c = (48 \<le> (of_char c :: nat) \<and> (of_char c :: nat) \<le> 57)"

definition undigits :: "string \<Rightarrow> nat" where
  "undigits s = foldl (\<lambda>a c. 10 * a + ((of_char c :: nat) - 48)) 0 s"


section \<open>Response payloads and their JSON text\<close>

text \<open>
  The payload a handler passes to \<^verbatim>\<open>res.json\<close>. \<^verbatim>\<open>JSON.stringify\<close> throws a
  TypeError on a BigInt, which is how a payload that cannot be serialised is represented.
  Numbers are integers and strings are byte strings; object members keep the order in
  which they are listed.
\<close>

datatype js_value =
    JNull
  | JBool bool
  | JNum int
  | JBigInt int
  | JStr string
  | JArr "js_value list"
  | JObj "(string \<times> js_value) list"

definition hex_char :: "nat \<Rightarrow> char" where
  "hex_char d =
     (if d < 10 then digit_char d
      else if d = 10 then CHR ''a'' else if d = 11 then CHR ''b'' else if d = 12 then CHR ''c''
      else if d = 13 then CHR ''d'' else if d = 14 then CHR ''e'' else CHR ''f'')"

definition escape_char :: "char \<Rightarrow> string" where
  "escape_char c =
     (if c = CHR 0x22 then [CHR 0x5C, CHR 0x22]
      else if c = CHR 0x5C then [CHR 0x5C, CHR 0x5C]
      else if c = CHR 0x08 then [CHR 0x5C, CHR ''b'']
      else if c = CHR 0x0C then [CHR 0x5C, CHR ''f'']
      else if c = CHR 0x0A then [CHR 0x5C, CHR ''n'']
      else if c = CHR 0x0D then [CHR 0x5C, CHR ''r'']
      else if c = CHR 0x09 then [CHR 0x5C, CHR ''t'']
      else if (of_char c :: nat) < 32
        then [CHR 0x5C, CHR ''u'', CHR ''0'', CHR ''0'',
              hex_char ((of_char c :: nat) div 16), hex_char ((of_char c :: nat) mod 16)]
      else [c])"

definition quote :: "string \<Rightarrow> string" where
  "quote s = CHR 0x22 # concat (map escape_char s) @ [CHR 0x22]"

fun join :: "string list \<Rightarrow> string" where
  "join [] = []"
| "join [x] = x"
| "join (x # y # ys) = x @ CHR '','' # join (y # ys)"

fun sequence :: "'a option list \<Rightarrow> 'a list option" where
  "sequence [] = Some []"
| "sequence (x # xs) =
     (case x of
        None \<Rightarrow> None
      | Some v \<Rightarrow> (case sequence xs of None \<Rightarrow> None | Some vs \<Rightarrow> Some (v # vs)))"

text \<open>\<^verbatim>\<open>JSON.stringify(data)\<close> without indentation; \<open>None\<close> when it throws.\<close>

fun JSON_stringify :: "js_value \<Rightarrow> string option" where
  "JSON_stringify JNull = Some ''null''"
| "JSON_stringify (JBool b) = Some (if b then ''true'' else ''false'')"
| "JSON_stringify (JNum n) = Some (show_int n)"
| "JSON_stringify (JBigInt n) = None"
| "JSON_stringify (JStr s) = Some (quote s)"
| "JSON_stringify (JArr vs) =
     (case sequence (map JSON_stringify vs) of
        None \<Rightarrow> None
      | Some ts \<Rightarrow> Some (CHR ''['' # join ts @ '']''))"
| "JSON_stringify (JObj kvs) =
     (case sequence
             (map (\<lambda>kv. map_option (\<lambda>t. quote (fst kv) @ CHR '':'' # t)
                                    (JSON_stringify (snd kv))) kvs) of
        None \<Rightarrow> None
      | Some ts \<Rightarrow> Some (CHR ''{'' # join ts @ ''}''))"

definition hex_val :: "char \<Rightarrow> nat option" where
  "hex_val c =
     (let n = (of_char c :: nat) in
      if 48 \<le> n \<and> n \<le> 57 then Some (n - 48)
      else if 97 \<le> n \<and> n \<le> 102 then Some (n - 87)
      else if 65 \<le> n \<and> n \<le> 70 then Some (n - 55)
      else None)"

definition unescape :: "char \<Rightarrow> char option" where
  "unescape e =
     (if e = CHR 0x22 then Some (CHR 0x22)
      else if e = CHR 0x5C then Some (CHR 0x5C)
      else if e = CHR ''/'' then Some (CHR ''/'')
      else if e = CHR ''b'' then Some (CHR 0x08)
      else if e = CHR ''f'' then Some (CHR 0x0C)
      else if e = CHR ''n'' then Some (CHR 0x0A)
      else if e = CHR ''r'' then Some (CHR 0x0D)
      else if e = CHR ''t'' then Some (CHR 0x09)
      else None)"

definition consing :: "'a \<Rightarrow> ('a list \<times> 'b) option \<Rightarrow> ('a list \<times> 'b) option" where
  "consing x r = map_option (\<lambda>(xs, rest). (x # xs, rest)) r"

text \<open>
  The characters of a string literal, read after its opening quotation mark. Strings are
  byte strings here, so of the escapes \<^verbatim>\<open>\uXXXX\<close> only those up to \<^verbatim>\<open>\u00FF\<close>
  denote a character; the others are rejected.
\<close>

fun p_string :: "string \<Rightarrow> (string \<times> string) option" where
  "p_string [] = None"
| "p_string (c # cs) =
     (if c = CHR 0x22 then Some ([], cs)
      else if c = CHR 0x5C then
        (case cs of
           [] \<Rightarrow> None
         | e # r \<Rightarrow>
             if e = CHR ''u'' then
               (case r of
                  a # b # x # y # r' \<Rightarrow>
                    (case (hex_val a, hex_val b, hex_val x, hex_val y) of
                       (Some 0, Some 0, Some h, Some l) \<Rightarrow>
                         consing (char_of (16 * h + l)) (p_string r')
                     | _ \<Rightarrow> None)
                | _ \<Rightarrow> None)
             else (case unescape e of None \<Rightarrow> None | Some ch \<Rightarrow> consing ch (p_string r)))
      else if (of_char c :: nat) < 32 then None
      else consing c (p_string cs))"

definition p_nat :: "string \<Rightarrow> (nat \<times> string) option" where
  "p_nat s =
     (let ds = takeWhile is_digit s; rest = dropWhile is_digit s
      in if ds = [] \<or> (hd ds = CHR ''0'' \<and> tl ds \<noteq> []) then None
         else Some (undigits ds, rest))"

definition p_number :: "string \<Rightarrow> (js_value \<times> string) option" where
  "p_number s =
     (case s of
        [] \<Rightarrow> None
      | c # cs \<Rightarrow>
          if c = CHR ''-'' then map_option (\<lambda>(n, rest). (JNum (- int n), rest)) (p_nat cs)
          else map_option (\<lambda>(n, rest). (JNum (int n), rest)) (p_nat s))"

definition p_literal :: "string \<Rightarrow> js_value \<Rightarrow> string \<Rightarrow> (js_value \<times> string) option" where
  "p_literal w v s = (if take (length w) s = w then Some (v, drop (length w) s) else None)"

text \<open>
  A recursive-descent reader of the compact JSON text that \<^verbatim>\<open>JSON.stringify\<close> emits
  (no insignificant white space, integer numbers). The first argument bounds the nesting
  depth; every call consumes a character, so the length of the text is enough.
\<close>

fun p_value :: "nat \<Rightarrow> string \<Rightarrow> (js_value \<times> string) option"
  and p_elements :: "nat \<Rightarrow> string \<Rightarrow> (js_value list \<times> string) option"
  and p_members :: "nat \<Rightarrow> string \<Rightarrow> ((string \<times> js_value) list \<times> string) option"
where
  "p_value 0 s = None"
| "p_value (Suc n) s =
     (case s of
        [] \<Rightarrow> None
      | c # cs \<Rightarrow>
          if c = CHR 0x22 then map_option (\<lambda>(t, rest). (JStr t, rest)) (p_string cs)
          else if c = CHR ''['' then
            (case cs of
               [] \<Rightarrow> None
             | d # ds \<Rightarrow> if d = CHR '']'' then Some (JArr [], ds)
                        else map_option (\<lambda>(vs, rest). (JArr vs, rest)) (p_elements n cs))
          else if c = CHR ''{'' then
            (case cs of
               [] \<Rightarrow> None
             | d # ds \<Rightarrow> if d = CHR ''}'' then Some (JObj [], ds)
                        else map_option (\<lambda>(kvs, rest). (JObj kvs, rest)) (p_members n cs))
          else if c = CHR ''n'' then p_literal ''null'' JNull s
          else if c = CHR ''t'' then p_literal ''true'' (JBool True) s
          else if c = CHR ''f'' then p_literal ''false'' (JBool False) s
          else p_number s)"
| "p_elements 0 s = None"
| "p_elements (Suc n) s =
     (case p_value n s of
        None \<Rightarrow> None
      | Some (v, rest) \<Rightarrow>
          (case rest of
             [] \<Rightarrow> None
           | d # ds \<Rightarrow> if d = CHR '','' then consing v (p_elements n ds)
                      else if d = CHR '']'' then Some ([v], ds)
                      else None))"
| "p_members 0 s = None"
| "p_members (Suc n) s =
     (case s of
        [] \<Rightarrow> None
      | q # cs \<Rightarrow>
          if q \<noteq> CHR 0x22 then None
          else (case p_string cs of
                  None \<Rightarrow> None
                | Some (k, rest) \<Rightarrow>
                    (case rest of
                       [] \<Rightarrow> None
                     | colon # vs \<Rightarrow>
                         if colon \<noteq> CHR '':'' then None
                         else (case p_value n vs of
                                 None \<Rightarrow> None
                               | Some (v, rest') \<Rightarrow>
                                   (case rest' of
                                      [] \<Rightarrow> None
                                    | d # ds \<Rightarrow>
                                        if d = CHR '','' then consing (k, v) (p_members n ds)
                                        else if d = CHR ''}'' then Some ([(k, v)], ds)
                                        else None)))))"

text \<open>\<^verbatim>\<open>JSON.parse(text)\<close>; \<open>None\<close> when it throws a SyntaxError.\<close>

definition JSON_parse :: "string \<Rightarrow> js_value option" where
  "JSON_parse s =
     (case p_value (Suc (length s)) s of
        Some (v, []) \<Rightarrow> Some v
      | _ \<Rightarrow> None)"


section \<open>Requests and cache keys\<close>

text \<open>
  The \<^verbatim>\<open>id\<close> of \<^verbatim>\<open>req.user\<close>: a number (the rows \<^verbatim>\<open>authenticateToken\<close> reads
  carry the integer primary key) or a string.
\<close>

datatype js_id = IdNum int | IdStr string

text \<open>JavaScript truthiness: the number 0 and the empty string are falsy.\<close>

fun truthy :: "js_id \<Rightarrow> bool" where
  "truthy (IdNum n) = (n \<noteq> 0)"
| "truthy (IdStr s) = (s \<noteq> [])"

fun to_string :: "js_id \<Rightarrow> string" where
  "to_string (IdNum n) = show_int n"
| "to_string (IdStr s) = s"

text \<open>
  \<open>user_id\<close> is \<^verbatim>\<open>req.user?.id\<close>: \<open>None\<close> when the request has no user attached
  (the expression is then \<^verbatim>\<open>undefined\<close>).
\<close>

record request =
  "method" :: string
  originalUrl :: string
  user_id :: "js_id option"

text \<open>\<^verbatim>\<open>req.user?.id || 'anonymous'\<close>, as the template literal renders it.\<close>

definition principal :: "request \<Rightarrow> string" where
  "principal req =
     (case user_id req of
        None \<Rightarrow> ''anonymous''
      | Some i \<Rightarrow> if truthy i then to_string i else ''anonymous'')"

text \<open>\<^verbatim>\<open>`cache:${req.originalUrl}:${req.user?.id || 'anonymous'}`\<close> (cache.js, line 19).\<close>

definition cacheKey :: "request \<Rightarrow> string" where
  "cacheKey req = ''cache:'' @ originalUrl req @ '':'' @ principal req"

text \<open>A principal that is absent or carries a non-zero integer id.\<close>

fun numbered :: "js_id option \<Rightarrow> bool" where
  "numbered None = True"
| "numbered (Some (IdNum n)) = (n \<noteq> 0)"
| "numbered (Some (IdStr s)) = False"


section \<open>The key-value store client\<close>

text \<open>
  The store is a collaborator outside the repository: the node-redis client that
  \<^verbatim>\<open>config/redis.js\<close> creates, and the server behind it. Its commands follow the
  adapter contract of the specification (section 4.1) and the Redis commands the source
  calls: \<^verbatim>\<open>get\<close>, \<^verbatim>\<open>setEx\<close>, \<^verbatim>\<open>keys\<close>, \<^verbatim>\<open>del\<close> and the flag
  \<^verbatim>\<open>isOpen\<close>. An entry is a value with the instant at which it expires; an expired
  entry is invisible to every command. A command is refused (its promise rejects) when
  the client is closed or when the connection fails for that command.
\<close>

datatype command = GET | SETEX | KEYS | DEL

datatype store_error = Rejected

record client =
  isOpen :: bool
  entries :: "(string \<times> string \<times> nat) list"
  rejecting :: "command set"

definition lookup :: "client \<Rightarrow> nat \<Rightarrow> string \<Rightarrow> string option" where
  "lookup c now k =
     (case map_of (entries c) k of
        None \<Rightarrow> None
      | Some (v, expiry) \<Rightarrow> if now < expiry then Some v else None)"

definition refused :: "client \<Rightarrow> command \<Rightarrow> bool" where
  "refused c cmd = (\<not> isOpen c \<or> cmd \<in> rejecting c)"

definition client_get :: "client \<Rightarrow> nat \<Rightarrow> string \<Rightarrow> store_error + string option" where
  "client_get c now k = (if refused c GET then Inl Rejected else Inr (lookup c now k))"

text \<open>\<^verbatim>\<open>SETEX\<close> refuses an expiry of zero seconds.\<close>

definition client_setEx ::
  "client \<Rightarrow> nat \<Rightarrow> string \<Rightarrow> nat \<Rightarrow> string \<Rightarrow> store_error + client" where
  "client_setEx c now k ttl v =
     (if refused c SETEX \<or> ttl = 0 then Inl Rejected
      else Inr (c\<lparr>entries := AList.update k (v, now + ttl) (entries c)\<rparr>))"

text \<open>
  Glob matching of \<^verbatim>\<open>KEYS\<close>, for the patterns the source builds: \<open>*\<close> matches any
  run of characters and every other character matches itself.
\<close>

fun glob :: "string \<Rightarrow> string \<Rightarrow> bool" where
  "glob [] s = (s = [])"
| "glob (p # ps) s =
     (if p = CHR ''*''
      then glob ps s \<or> (case s of [] \<Rightarrow> False | _ # t \<Rightarrow> glob (p # ps) t)
      else (case s of [] \<Rightarrow> False | c # t \<Rightarrow> c = p \<and> glob ps t))"

text \<open>The keys a \<^verbatim>\<open>KEYS\<close> command finds: each live key that matches, once.\<close>

definition matching :: "client \<Rightarrow> nat \<Rightarrow> string \<Rightarrow> string list" where
  "matching c now pattern =
     remdups (filter (\<lambda>k. lookup c now k \<noteq> None \<and> glob pattern k) (map fst (entries c)))"

definition client_keys :: "client \<Rightarrow> nat \<Rightarrow> string \<Rightarrow> store_error + string list" where
  "client_keys c now pattern =
     (if refused c KEYS then Inl Rejected else Inr (matching c now pattern))"

text \<open>\<^verbatim>\<open>DEL\<close> answers with the number of keys it removed; without a key it is an error.\<close>

definition client_del :: "client \<Rightarrow> nat \<Rightarrow> string list \<Rightarrow> store_error + nat \<times> client" where
  "client_del c now ks =
     (if refused c DEL \<or> ks = [] then Inl Rejected
      else Inr (length (filter (\<lambda>k. lookup c now k \<noteq> None) (remdups ks)),
                c\<lparr>entries := filter (\<lambda>e. fst e \<notin> set ks) (entries c)\<rparr>))"

datatype store_op =
    Get string
  | SetEx string nat string
  | Keys string
  | Del "string list"


section \<open>The read-through cache middleware (middleware/cache.js)\<close>

record response =
  status :: nat
  body :: string

text \<open>
  The rest of the middleware chain, as the cache middleware sees it. The handler calls
  \<^verbatim>\<open>res.status(s).json(data)\<close>; all handlers of the repository wrap their body in
  \<^verbatim>\<open>try\<close>/\<^verbatim>\<open>catch\<close> and call \<^verbatim>\<open>res.status(500).json(...)\<close> when anything threw,
  \<^verbatim>\<open>res.json\<close> included. So a run of the handler is the list of its \<^verbatim>\<open>res.json\<close>
  calls, each one made only when the one before it threw; after the last one the
  exception escapes and nothing is sent. \<open>connection_lost\<close> says that the client's
  connection closed while the handler was running.
\<close>

record downstream =
  attempts :: "(nat \<times> js_value) list"
  connection_lost :: bool

type_synonym world = "client \<times> store_op list"

text \<open>Express's own \<^verbatim>\<open>res.json\<close>: serialise and send; it throws when serialising does.\<close>

definition express_json :: "nat \<times> js_value \<Rightarrow> response option" where
  "express_json a =
     map_option (\<lambda>text. \<lparr>status = fst a, body = text\<rparr>) (JSON_stringify (snd a))"

definition originalJson :: "nat \<times> js_value \<Rightarrow> world \<Rightarrow> response option \<times> world" where
  "originalJson a w = (express_json a, w)"

text \<open>
  The function the middleware installs as \<^verbatim>\<open>res.json\<close> on a miss (lines 33 to 43).
  The argument of \<^verbatim>\<open>setEx\<close> is evaluated first, so a payload that cannot be serialised
  throws before any command is issued; a rejected \<^verbatim>\<open>setEx\<close> is logged and dropped.
\<close>

definition caching_json ::
  "string \<Rightarrow> nat \<Rightarrow> nat \<Rightarrow> nat \<times> js_value \<Rightarrow> world \<Rightarrow> response option \<times> world" where
  "caching_json key ttl now a w =
     (case w of
        (c, tr) \<Rightarrow>
          if isOpen c then
            (case JSON_stringify (snd a) of
               None \<Rightarrow> (None, w)
             | Some text \<Rightarrow>
                 originalJson a
                   (case client_setEx c now key ttl text of Inl err \<Rightarrow> c | Inr c' \<Rightarrow> c',
                    tr @ [SetEx key ttl text]))
          else originalJson a w)"

fun respond ::
  "(nat \<times> js_value \<Rightarrow> world \<Rightarrow> response option \<times> world) \<Rightarrow> (nat \<times> js_value) list \<Rightarrow> world
     \<Rightarrow> response option \<times> world" where
  "respond json [] w = (None, w)"
| "respond json (a # rest) w =
     (case json a w of
        (Some r, w') \<Rightarrow> (Some r, w')
      | (None, w') \<Rightarrow> respond json rest w')"

record outcome =
  response :: "response option"
  store :: client
  trace :: "store_op list"
  handler_calls :: nat

text \<open>\<^verbatim>\<open>next()\<close>: the handler runs, with the given function as \<^verbatim>\<open>res.json\<close>.\<close>

definition next_handler ::
  "(nat \<times> js_value \<Rightarrow> world \<Rightarrow> response option \<times> world) \<Rightarrow> downstream \<Rightarrow> world \<Rightarrow> outcome" where
  "next_handler json nx w =
     (case w of
        (c, tr) \<Rightarrow>
          (case respond json (attempts nx)
                  (if connection_lost nx then c\<lparr>isOpen := False\<rparr> else c, tr) of
             (r, c', tr') \<Rightarrow>
               \<lparr>response = r, store = c', trace = tr', handler_calls = 1\<rparr>))"

text \<open>
  \<^verbatim>\<open>cacheMiddleware(ttl)(req, res, next)\<close> at the instant \<open>now\<close>. A rejected
  \<^verbatim>\<open>get\<close>, a cached text that does not parse, and a throwing \<^verbatim>\<open>res.json\<close> in the
  hit branch all land in the \<^verbatim>\<open>catch\<close> block, which calls \<^verbatim>\<open>next()\<close> with
  \<^verbatim>\<open>res.json\<close> untouched. The hit branch answers with the status the response object
  starts with, 200.
\<close>

definition cacheMiddleware :: "nat \<Rightarrow> nat \<Rightarrow> request \<Rightarrow> downstream \<Rightarrow> client \<Rightarrow> outcome" where
  "cacheMiddleware ttl now req nx c =
     (if method req \<noteq> ''GET'' then next_handler originalJson nx (c, [])
      else if \<not> isOpen c then next_handler originalJson nx (c, [])
      else
        (case client_get c now (cacheKey req) of
           Inl err \<Rightarrow> next_handler originalJson nx (c, [Get (cacheKey req)])
         | Inr None \<Rightarrow>
             next_handler (caching_json (cacheKey req) ttl now) nx (c, [Get (cacheKey req)])
         | Inr (Some cachedData) \<Rightarrow>
             if cachedData = [] then
               next_handler (caching_json (cacheKey req) ttl now) nx (c, [Get (cacheKey req)])
             else
               (case JSON_parse cachedData of
                  None \<Rightarrow> next_handler originalJson nx (c, [Get (cacheKey req)])
                | Some data \<Rightarrow>
                    (case express_json (200, data) of
                       None \<Rightarrow> next_handler originalJson nx (c, [Get (cacheKey req)])
                     | Some r \<Rightarrow>
                         \<lparr>response = Some r, store = c, trace = [Get (cacheKey req)],
                            handler_calls = 0\<rparr>))))"

text \<open>
  The response when no cache middleware stands in front of the handler: what the first
  \<^verbatim>\<open>res.json\<close> call that does not throw sends.
\<close>

fun first_sent :: "(nat \<times> js_value) list \<Rightarrow> response option" where
  "first_sent [] = None"
| "first_sent (a # rest) =
     (case express_json a of Some r \<Rightarrow> Some r | None \<Rightarrow> first_sent rest)"

text \<open>
  The hit branch is taken and completes: the store answers with a non-empty text that
  parses into a payload \<^verbatim>\<open>res.json\<close> can send.
\<close>

definition served_from_cache :: "nat \<Rightarrow> request \<Rightarrow> client \<Rightarrow> bool" where
  "served_from_cache now req c =
     (method req = ''GET'' \<and> isOpen c \<and>
      (case client_get c now (cacheKey req) of
         Inl err \<Rightarrow> False
       | Inr None \<Rightarrow> False
       | Inr (Some cachedData) \<Rightarrow>
           cachedData \<noteq> [] \<and>
           (case JSON_parse cachedData of
              None \<Rightarrow> False
            | Some data \<Rightarrow> express_json (200, data) \<noteq> None)))"

text \<open>The miss branch is taken: the store answers, with nothing or with an empty text.\<close>

definition cache_miss :: "nat \<Rightarrow> request \<Rightarrow> client \<Rightarrow> bool" where
  "cache_miss now req c =
     (method req = ''GET'' \<and> isOpen c \<and>
      (client_get c now (cacheKey req) = Inr None \<or>
       client_get c now (cacheKey req) = Inr (Some [])))"


section \<open>Invalidation (middleware/cache.js)\<close>

datatype log_line =
    SkippingCacheClear
  | ClearedEntries nat string
  | CacheClearError

text \<open>
  What an invalidation leaves behind: the store, the commands it issued, its log lines,
  and the value its promise resolves to (\<open>None\<close> is \<^verbatim>\<open>undefined\<close>).
\<close>

record effect =
  store_after :: client
  issued :: "store_op list"
  logged :: "log_line list"
  resolved :: "nat option"

definition clearCache :: "client \<Rightarrow> nat \<Rightarrow> string \<Rightarrow> effect" where
  "clearCache c now pattern =
     (if \<not> isOpen c
      then \<lparr>store_after = c, issued = [], logged = [SkippingCacheClear], resolved = None\<rparr>
      else
        (case client_keys c now pattern of
           Inl err \<Rightarrow>
             \<lparr>store_after = c, issued = [Keys pattern], logged = [CacheClearError],
                resolved = None\<rparr>
         | Inr keys \<Rightarrow>
             if length keys > 0 then
               (case client_del c now keys of
                  Inl err \<Rightarrow>
                    \<lparr>store_after = c, issued = [Keys pattern, Del keys],
                       logged = [CacheClearError], resolved = None\<rparr>
                | Inr (n, c') \<Rightarrow>
                    \<lparr>store_after = c', issued = [Keys pattern, Del keys],
                       logged = [ClearedEntries (length keys) pattern], resolved = None\<rparr>)
             else
               \<lparr>store_after = c, issued = [Keys pattern], logged = [], resolved = None\<rparr>))"


definition clearUserCache :: "client \<Rightarrow> nat \<Rightarrow> int \<Rightarrow> effect" where
  "clearUserCache c now userId = clearCache c now (''cache:*:'' @ show_int userId)"




section \<open>Handlers (controllers)\<close>

text \<open>
  The database is a collaborator outside the cache layer. The outcome of each
  \<^verbatim>\<open>pool.query\<close> is an input of the handler: it throws, or it yields rows.
\<close>

datatype 'a query = Throws | Rows "'a list"

definition failure :: "string \<Rightarrow> js_value" where
  "failure message = JObj [(''success'', JBool False), (''message'', JStr message)]"

text \<open>
  \<^verbatim>\<open>getCategory\<close> (category controller): the \<^verbatim>\<open>res.json\<close> calls it makes, given the
  outcome of its query. The call in the \<^verbatim>\<open>catch\<close> block comes last.
\<close>

definition getCategory :: "js_value query \<Rightarrow> (nat \<times> js_value) list" where
  "getCategory result =
     (case result of
        Throws \<Rightarrow> [(500, failure ''Internal server error'')]
      | Rows [] \<Rightarrow>
          [(404, failure ''Category not found''), (500, failure ''Internal server error'')]
      | Rows (row # _) \<Rightarrow>
          [(200, JObj [(''success'', JBool True), (''data'', JObj [(''category'', row)])]),
           (500, failure ''Internal server error'')])"


















section \<open>Routes and their expiry times\<close>

datatype router = TransactionRoutes | AnalyticsRoutes | CategoryRoutes | AdminRoutes

text \<open>
  Every \<^verbatim>\<open>router.get\<close> registration that has \<^verbatim>\<open>cacheMiddleware(ttl)\<close> in its chain
  (routes/transactions.js, routes/analytics.js, routes/categories.js, routes/admin.js).
\<close>

definition cached_routes :: "(router \<times> string \<times> nat) list" where
  "cached_routes =
     [(TransactionRoutes, ''/'', 300),
      (TransactionRoutes, ''/summary'', 900),
      (TransactionRoutes, ''/:id'', 600),
      (AnalyticsRoutes, ''/monthly'', 900),
      (AnalyticsRoutes, ''/yearly'', 900),
      (AnalyticsRoutes, ''/categories'', 900),
      (AnalyticsRoutes, ''/trends'', 900),
      (AnalyticsRoutes, ''/dashboard'', 900),
      (CategoryRoutes, ''/'', 3600),
      (CategoryRoutes, ''/stats'', 900),
      (CategoryRoutes, ''/:id'', 3600),
      (AdminRoutes, ''/users'', 300),
      (AdminRoutes, ''/stats'', 600),
      (AdminRoutes, ''/users/:id'', 600),
      (AdminRoutes, ''/transactions'', 300)]"

definition route_ttl :: "router \<Rightarrow> string \<Rightarrow> nat option" where
  "route_ttl r path = map_of (map (\<lambda>(r', p, ttl). ((r', p), ttl)) cached_routes) (r, path)"

text \<open>
  The resource classes of the specification's convention (section 6), and the class each
  cached route is read as: statistics and summaries are aggregates, the category routes
  are category data, the remaining administration routes are user and admin listings.
\<close>

datatype resource_class =
    TransactionsList
  | SingleItemLookup
  | CategoryData
  | AnalyticsAggregate
  | UserAdminListing

fun conventional :: "resource_class \<Rightarrow> nat \<Rightarrow> bool" where
  "conventional TransactionsList ttl = (ttl = 300)"
| "conventional SingleItemLookup ttl = (ttl = 600)"
| "conventional CategoryData ttl = (ttl = 3600)"
| "conventional AnalyticsAggregate ttl = (ttl = 900)"
| "conventional UserAdminListing ttl = (300 \<le> ttl \<and> ttl \<le> 600)"

definition class_of :: "router \<Rightarrow> string \<Rightarrow> resource_class" where
  "class_of r path =
     (case r of
        TransactionRoutes \<Rightarrow>
          if path = ''/'' then TransactionsList
          else if path = ''/summary'' then AnalyticsAggregate
          else SingleItemLookup
      | AnalyticsRoutes \<Rightarrow> AnalyticsAggregate
      | CategoryRoutes \<Rightarrow> if path = ''/stats'' then AnalyticsAggregate else CategoryData
      | AdminRoutes \<Rightarrow> UserAdminListing)"


section \<open>Measures for the JSON reader\<close>

text \<open>
  What follows a number in a JSON text is the end of the text or a character that is not
  a digit.
\<close>

definition terminated :: "string \<Rightarrow> bool" where
  "terminated rest = (case rest of [] \<Rightarrow> True | c # _ \<Rightarrow> \<not> is_digit c)"

text \<open>The text of one object member.\<close>

definition member_text :: "string \<times> js_value \<Rightarrow> string option" where
  "member_text kv =
     map_option (\<lambda>t. quote (fst kv) @ CHR '':'' # t) (JSON_stringify (snd kv))"

text \<open>
  The bound the reader needs to read a value back: one for the value, and for an array
  or an object one more for each element in front of the deepest one.
\<close>

fun need :: "js_value \<Rightarrow> nat" where
  "need (JArr vs) = Suc (foldr (\<lambda>n acc. Suc (max n acc)) (map need vs) 0)"
| "need (JObj kvs) =
     Suc (foldr (\<lambda>n acc. Suc (max n acc)) (map (\<lambda>kv. need (snd kv)) kvs) 0)"
| "need v = Suc 0"

text \<open>
  A cached text is canonical when it reads as a payload whose serialisation it is: the
  texts the middleware writes are of this kind.
\<close>

definition canonical :: "string \<Rightarrow> bool" where
  "canonical cached =
     (case JSON_parse cached of None \<Rightarrow> False | Some v \<Rightarrow> JSON_stringify v = Some cached)"


section \<open>Concrete scenarios\<close>

text \<open>
  The data of the scenarios the properties below are run on: a store that is open and
  empty, the request \<^verbatim>\<open>GET /api/categories\<close> of user 42, and a handler that answers
  it with status 200.
\<close>

definition empty_store :: client where
  "empty_store = \<lparr>isOpen = True, entries = [], rejecting = {}\<rparr>"

definition get_categories :: request where
  "get_categories =
     \<lparr>method = ''GET'', originalUrl = ''/api/categories'', user_id = Some (IdNum 42)\<rparr>"

definition categories_payload :: js_value where
  "categories_payload =
     JObj [(''success'', JBool True),
           (''data'', JObj [(''categories'', JArr [JStr ''Food'', JNum 42])])]"

definition categories_handler :: downstream where
  "categories_handler = \<lparr>attempts = [(200, categories_payload)], connection_lost = False\<rparr>"

text \<open>The same store once the answer has been cached for an hour at instant 0.\<close>

definition warm_store :: client where
  \<open>warm_store =
     \<lparr>isOpen = True,
        entries = [(''cache:/api/categories:42'',
                    ''{"success":true,"data":{"categories":["Food",42]}}'', 3600)],
        rejecting = {}\<rparr>\<close>

text \<open>The request for a category that does not exist, and its handler.\<close>

definition get_missing_category :: request where
  "get_missing_category =
     \<lparr>method = ''GET'', originalUrl = ''/api/categories/9'', user_id = Some (IdNum 42)\<rparr>"

definition missing_category_handler :: downstream where
  "missing_category_handler = \<lparr>attempts = getCategory (Rows []), connection_lost = False\<rparr>"




section \<open>Properties of the cache key\<close>

declare digits.simps [simp del]

lemma digit_char_value: "d < 10 \<Longrightarrow> (of_char (digit_char d) :: nat) - 48 = d"
  by (simp add: digit_char_def)

lemma undigits_digits: "undigits (digits n) = n"
proof (induction n rule: digits.induct)
  case (1 n)
  show ?case
  proof (cases "n < 10")
    case True
    then show ?thesis by (simp add: digits.simps [of n] undigits_def digit_char_value)
  next
    case False
    then have "undigits (digits (n div 10)) = n div 10" using 1 by simp
    with False show ?thesis
      by (simp add: digits.simps [of n] undigits_def digit_char_value)
  qed
qed

lemma digits_inj: "digits m = digits n \<Longrightarrow> m = n"
  by (metis undigits_digits)

lemma is_digit_digit_char: "is_digit (digit_char d)"
  by (simp add: is_digit_def digit_char_def)

lemma digits_all_digit: "c \<in> set (digits n) \<Longrightarrow> is_digit c"
proof (induction n rule: digits.induct)
  case (1 n)
  then show ?case
    by (cases "n < 10") (auto simp: digits.simps [of n] is_digit_digit_char)
qed

lemma digits_nonempty: "digits n \<noteq> []"
  by (cases "n < 10") (simp_all add: digits.simps [of n])

lemma show_int_chars: "c \<in> set (show_int n) \<Longrightarrow> is_digit c \<or> c = CHR ''-''"
  by (auto simp: show_int_def dest: digits_all_digit split: if_splits)

lemma show_int_nonempty: "show_int n \<noteq> []"
  by (simp add: show_int_def digits_nonempty)

lemma show_int_colon_free: "CHR '':'' \<notin> set (show_int n)"
  using show_int_chars [of "CHR '':''" n] by (auto simp: is_digit_def)

lemma show_int_not_anonymous: "show_int n \<noteq> ''anonymous''"
proof
  assume "show_int n = ''anonymous''"
  then have "CHR ''a'' \<in> set (show_int n)" by simp
  then show False using show_int_chars [of "CHR ''a''" n] by (simp add: is_digit_def)
qed

lemma show_int_inj:
  assumes "show_int m = show_int n"
  shows "m = n"
proof -
  have hd_digit: "is_digit (hd (digits k))" for k
    using digits_nonempty [of k] digits_all_digit [of "hd (digits k)" k] by simp
  have neq: "CHR ''-'' # digits a \<noteq> digits b" for a b
  proof
    assume "CHR ''-'' # digits a = digits b"
    then have "hd (digits b) = CHR ''-''" by (metis list.sel(1))
    with hd_digit [of b] show False by (simp add: is_digit_def)
  qed
  show ?thesis
  proof (cases "m < 0"; cases "n < 0")
    assume "m < 0" "n < 0"
    with assms have "nat (- m) = nat (- n)" by (auto simp: show_int_def dest: digits_inj)
    with \<open>m < 0\<close> \<open>n < 0\<close> show ?thesis by simp
  next
    assume "m < 0" "\<not> n < 0"
    with assms neq show ?thesis by (auto simp: show_int_def)
  next
    assume "\<not> m < 0" "n < 0"
    with assms neq [of "nat (- n)" "nat m"] show ?thesis by (auto simp: show_int_def)
  next
    assume "\<not> m < 0" "\<not> n < 0"
    with assms have "nat m = nat n" by (auto simp: show_int_def dest: digits_inj)
    with \<open>\<not> m < 0\<close> \<open>\<not> n < 0\<close> show ?thesis by simp
  qed
qed

lemma split_at_first:
  "x @ c # a = y @ c # b \<Longrightarrow> c \<notin> set x \<Longrightarrow> c \<notin> set y \<Longrightarrow> x = y \<and> a = b"
proof (induction x arbitrary: y)
  case Nil
  then show ?case by (cases y) auto
next
  case (Cons h x)
  then show ?case by (cases y) auto
qed

lemma split_at_last:
  assumes "a @ c # p = b @ c # q" "c \<notin> set p" "c \<notin> set q"
  shows "a = b \<and> p = q"
proof -
  from assms(1) have "rev (a @ c # p) = rev (b @ c # q)" by simp
  then have "rev p @ c # rev a = rev q @ c # rev b" by simp
  moreover have "c \<notin> set (rev p)" "c \<notin> set (rev q)" using assms by simp_all
  ultimately have "rev p = rev q \<and> rev a = rev b"
    by (rule split_at_first)
  then show ?thesis by simp
qed

lemma principal_colon_free:
  "numbered (user_id r) \<Longrightarrow> CHR '':'' \<notin> set (principal r)"
proof (cases "user_id r")
  case None
  then show ?thesis by (simp add: principal_def)
next
  case (Some i)
  assume "numbered (user_id r)"
  with Some obtain n where i: "i = IdNum n" "n \<noteq> 0" by (cases i) auto
  with Some show_int_colon_free [of n] show ?thesis
    by (simp add: principal_def)
qed

lemma principal_inj:
  assumes "numbered (user_id r1)" "numbered (user_id r2)" "principal r1 = principal r2"
  shows "user_id r1 = user_id r2"
proof (cases "user_id r1")
  case None
  note n1 = None
  show ?thesis
  proof (cases "user_id r2")
    case None
    with n1 show ?thesis by simp
  next
    case (Some j)
    with assms(2) obtain n where "j = IdNum n" "n \<noteq> 0" by (cases j) auto
    with Some n1 assms(3) show_int_not_anonymous [of n] show ?thesis
      by (simp add: principal_def)
  qed
next
  case (Some i)
  note s1 = Some
  with assms(1) obtain m where i: "i = IdNum m" "m \<noteq> 0" by (cases i) auto
  show ?thesis
  proof (cases "user_id r2")
    case None
    with s1 i assms(3) show_int_not_anonymous [of m] show ?thesis
      by (simp add: principal_def)
  next
    case (Some j)
    with assms(2) obtain n where j: "j = IdNum n" "n \<noteq> 0" by (cases j) auto
    from s1 Some i j assms(3) have "show_int m = show_int n" by (simp add: principal_def)
    then have "m = n" by (rule show_int_inj)
    with s1 Some i j show ?thesis by simp
  qed
qed

text \<open>
  Claim C2 states that the key is injective on (path and query, principal) for every
  pair of requests. As stated it fails: a principal whose id is the number 0 gets the
  key of a request with no principal.
\<close>

theorem cacheKey_collision_counterexample:
  "cacheKey \<lparr>method = ''GET'', originalUrl = ''/api/transactions'', user_id = Some (IdNum 0)\<rparr>
     = cacheKey \<lparr>method = ''GET'', originalUrl = ''/api/transactions'', user_id = None\<rparr>
   \<and> Some (IdNum 0) \<noteq> (None :: js_id option)"
  by (simp add: cacheKey_def principal_def)

text \<open>
  Claim C2, amended: among requests whose principal is absent or carries a non-zero
  integer id, two requests have the same cache key exactly when they have the same path
  and query and the same principal. In particular two different such principals asking
  for the same path and query get different keys.
\<close>

theorem cacheKey_injective_numbered:
  assumes "numbered (user_id r1)" "numbered (user_id r2)"
  shows "(cacheKey r1 = cacheKey r2) =
         (originalUrl r1 = originalUrl r2 \<and> user_id r1 = user_id r2)"
proof
  assume eq: "cacheKey r1 = cacheKey r2"
  then have "originalUrl r1 @ CHR '':'' # principal r1
               = originalUrl r2 @ CHR '':'' # principal r2"
    by (simp add: cacheKey_def)
  then have "originalUrl r1 = originalUrl r2 \<and> principal r1 = principal r2"
    using principal_colon_free [OF assms(1)] principal_colon_free [OF assms(2)]
    by (rule split_at_last)
  with assms show "originalUrl r1 = originalUrl r2 \<and> user_id r1 = user_id r2"
    by (auto dest: principal_inj)
next
  assume "originalUrl r1 = originalUrl r2 \<and> user_id r1 = user_id r2"
  then show "cacheKey r1 = cacheKey r2" by (simp add: cacheKey_def principal_def)
qed

theorem cacheKey_injective_numbered_witness:
  "numbered (Some (IdNum 1)) \<and> numbered (Some (IdNum 2)) \<and>
   cacheKey \<lparr>method = ''GET'', originalUrl = ''/api/transactions'', user_id = Some (IdNum 1)\<rparr>
     \<noteq> cacheKey \<lparr>method = ''GET'', originalUrl = ''/api/transactions'', user_id = Some (IdNum 2)\<rparr>"
  using cacheKey_injective_numbered
    [of "\<lparr>method = ''GET'', originalUrl = ''/api/transactions'', user_id = Some (IdNum 1)\<rparr>"
        "\<lparr>method = ''GET'', originalUrl = ''/api/transactions'', user_id = Some (IdNum 2)\<rparr>"]
  by simp


section \<open>Reading back what was serialised\<close>

text \<open>
  Every text \<^verbatim>\<open>JSON.stringify\<close> produces is read by \<^verbatim>\<open>JSON.parse\<close> as the payload
  it came from.
\<close>

lemma hex_val_hex_char: "d < 16 \<Longrightarrow> hex_val (hex_char d) = Some d"
  by (auto simp: hex_char_def digit_char_def hex_val_def Let_def)

lemma hex_val_zero: "hex_val (CHR ''0'') = Some 0"
  by (simp add: hex_val_def)

lemma p_string_escape: "p_string (escape_char c @ rest) = consing c (p_string rest)"
proof -
  consider "c = CHR 0x22" | "c = CHR 0x5C" | "c = CHR 0x08" | "c = CHR 0x0C" | "c = CHR 0x0A"
    | "c = CHR 0x0D" | "c = CHR 0x09"
    | "c \<noteq> CHR 0x22" "c \<noteq> CHR 0x5C" "c \<noteq> CHR 0x08" "c \<noteq> CHR 0x0C" "c \<noteq> CHR 0x0A"
       "c \<noteq> CHR 0x0D" "c \<noteq> CHR 0x09" "(of_char c :: nat) < 32"
    | "c \<noteq> CHR 0x22" "c \<noteq> CHR 0x5C" "\<not> (of_char c :: nat) < 32"
    by (cases "(of_char c :: nat) < 32") auto
  then show ?thesis
  proof cases
    case 8
    then have d: "(of_char c :: nat) div 16 < 16" "(of_char c :: nat) mod 16 < 16" by simp_all
    from 8 show ?thesis
      by (simp add: escape_char_def hex_val_zero hex_val_hex_char [OF d(1)]
                    hex_val_hex_char [OF d(2)])
  next
    case 9
    then have "escape_char c = [c]"
      by (auto simp: escape_char_def)
    with 9 show ?thesis by simp
  qed (simp_all add: escape_char_def unescape_def)
qed

lemma p_string_quoted:
  "p_string (concat (map escape_char s) @ CHR 0x22 # rest) = Some (s, rest)"
  by (induction s) (simp_all add: p_string_escape consing_def)

lemma digit_char_zero: "d < 10 \<Longrightarrow> digit_char d = CHR ''0'' \<Longrightarrow> d = 0"
  by (auto simp: digit_char_def split: if_splits)

lemma digits_hd_zero: "hd (digits n) = CHR ''0'' \<Longrightarrow> n = 0"
proof (induction n rule: digits.induct)
  case (1 n)
  show ?case
  proof (cases "n < 10")
    case True
    with 1(2) show ?thesis by (simp add: digits.simps [of n] digit_char_zero)
  next
    case False
    with 1(2) have "hd (digits (n div 10)) = CHR ''0''"
      by (simp add: digits.simps [of n] digits_nonempty)
    with False 1(1) have "n div 10 = 0" by simp
    with False show ?thesis by simp
  qed
qed

lemma digits_zero: "digits 0 = ''0''"
  by (simp add: digits.simps digit_char_def)

lemma while_digits:
  assumes "\<And>x. x \<in> set xs \<Longrightarrow> P x" "case rest of [] \<Rightarrow> True | c # _ \<Rightarrow> \<not> P c"
  shows "takeWhile P (xs @ rest) = xs \<and> dropWhile P (xs @ rest) = rest"
  using assms by (induction xs) (auto split: list.splits)

lemma p_nat_digits:
  assumes "terminated rest"
  shows "p_nat (digits n @ rest) = Some (n, rest)"
proof -
  from assms have w: "takeWhile is_digit (digits n @ rest) = digits n \<and>
        dropWhile is_digit (digits n @ rest) = rest"
    by (intro while_digits) (auto simp: terminated_def digits_all_digit)
  have "\<not> (hd (digits n) = CHR ''0'' \<and> tl (digits n) \<noteq> [])"
    using digits_hd_zero [of n] by (auto simp: digits_zero)
  with w show ?thesis
    by (simp add: p_nat_def Let_def digits_nonempty undigits_digits)
qed

lemma digits_hd: "\<exists>d ds. digits n = d # ds \<and> is_digit d"
  using digits_nonempty [of n] digits_all_digit [of _ n] by (cases "digits n") auto

lemma p_number_show_int:
  assumes "terminated rest"
  shows "p_number (show_int n @ rest) = Some (JNum n, rest)"
proof (cases "n < 0")
  case True
  then show ?thesis
    by (simp add: show_int_def p_number_def p_nat_digits [OF assms])
next
  case False
  obtain d ds where d: "digits (nat n) = d # ds" "is_digit d" using digits_hd by blast
  then have "d \<noteq> CHR ''-''" by (auto simp: is_digit_def)
  moreover have "p_nat (d # ds @ rest) = Some (nat n, rest)"
    using p_nat_digits [OF assms, of "nat n"] d by simp
  ultimately show ?thesis using False d
    by (simp add: show_int_def p_number_def)
qed

text \<open>The first character of a number is a digit or the minus sign.\<close>

lemma show_int_hd:
  "\<exists>d ds. show_int n = d # ds \<and> (is_digit d \<or> d = CHR ''-'')"
  using digits_hd [of "nat n"] by (auto simp: show_int_def)

lemma stringify_hd:
  "JSON_stringify v = Some t \<Longrightarrow> \<exists>c cs. t = c # cs \<and> c \<noteq> CHR '']'' \<and> c \<noteq> CHR ''}''"
proof (cases v)
  case (JNum n)
  assume "JSON_stringify v = Some t"
  with JNum show_int_hd [of n] show ?thesis by (auto simp: is_digit_def)
qed (auto simp: quote_def split: option.splits)

lemma p_elements_join:
  assumes "vs \<noteq> []"
    and "sequence (map JSON_stringify vs) = Some ts"
    and "foldr (\<lambda>n acc. Suc (max n acc)) (map need vs) 0 \<le> m"
    and "\<And>v t n rest. v \<in> set vs \<Longrightarrow> JSON_stringify v = Some t \<Longrightarrow> need v \<le> n \<Longrightarrow>
           terminated rest \<Longrightarrow> p_value n (t @ rest) = Some (v, rest)"
  shows "p_elements m (join ts @ CHR '']'' # rest) = Some (vs, rest)"
  using assms
proof (induction vs arbitrary: ts m)
  case Nil
  then show ?case by simp
next
  case (Cons v vs)
  from Cons.prems(2) obtain t ts' where t: "JSON_stringify v = Some t"
    "sequence (map JSON_stringify vs) = Some ts'" "ts = t # ts'"
    by (auto split: option.splits)
  from Cons.prems(3) obtain m' where m: "m = Suc m'" "need v \<le> m'"
    "foldr (\<lambda>n acc. Suc (max n acc)) (map need vs) 0 \<le> m'"
    by (cases m) auto
  have pv: "p_value m' (t @ r) = Some (v, r)" if "terminated r" for r
    using Cons.prems(4) [of v t m' r] t m that by simp
  show ?case
  proof (cases vs)
    case Nil
    with t have "ts' = []" by simp
    moreover have "terminated (CHR '']'' # rest)" by (simp add: terminated_def is_digit_def)
    ultimately show ?thesis using pv [of "CHR '']'' # rest"] t m Nil by simp
  next
    case (Cons v2 vs2)
    with t obtain t2 ts2 where ts': "ts' = t2 # ts2" by (auto split: option.splits)
    have sep: "terminated (CHR '','' # join ts' @ CHR '']'' # rest)"
      by (simp add: terminated_def is_digit_def)
    have "p_elements m' (join ts' @ CHR '']'' # rest) = Some (vs, rest)"
      using Cons.IH [of ts' m'] Cons t m Cons.prems(4) by simp
    with pv [OF sep] t m ts' show ?thesis by (simp add: consing_def)
  qed
qed

lemma p_members_join:
  assumes "kvs \<noteq> []"
    and "sequence (map member_text kvs) = Some ts"
    and "foldr (\<lambda>n acc. Suc (max n acc)) (map (\<lambda>kv. need (snd kv)) kvs) 0 \<le> m"
    and "\<And>k v t n rest. (k, v) \<in> set kvs \<Longrightarrow> JSON_stringify v = Some t \<Longrightarrow> need v \<le> n \<Longrightarrow>
           terminated rest \<Longrightarrow> p_value n (t @ rest) = Some (v, rest)"
  shows "p_members m (join ts @ CHR ''}'' # rest) = Some (kvs, rest)"
  using assms
proof (induction kvs arbitrary: ts m)
  case Nil
  then show ?case by simp
next
  case (Cons kv kvs)
  note IH = Cons.IH and prems = Cons.prems
  obtain k v where kv: "kv = (k, v)" by (cases kv)
  from Cons.prems(2) obtain x ts' where x: "member_text kv = Some x"
    "sequence (map member_text kvs) = Some ts'" "ts = x # ts'"
    by (auto split: option.splits)
  from x(1) kv obtain t where "JSON_stringify v = Some t" "x = quote k @ CHR '':'' # t"
    by (auto simp: member_text_def)
  with x have t: "JSON_stringify v = Some t"
    "sequence (map member_text kvs) = Some ts'" "ts = (quote k @ CHR '':'' # t) # ts'"
    by simp_all
  from Cons.prems(3) kv obtain m' where m: "m = Suc m'" "need v \<le> m'"
    "foldr (\<lambda>n acc. Suc (max n acc)) (map (\<lambda>kv. need (snd kv)) kvs) 0 \<le> m'"
    by (cases m) auto
  have pv: "p_value m' (t @ r) = Some (v, r)" if "terminated r" for r
    using Cons.prems(4) [of k v t m' r] t m kv that by simp
  have key: "p_string (concat (map escape_char k) @ CHR 0x22 # CHR '':'' # t @ r)
               = Some (k, CHR '':'' # t @ r)" for r
    by (rule p_string_quoted)
  show ?case
  proof (cases kvs)
    case Nil
    with t have "ts' = []" by simp
    moreover have "terminated (CHR ''}'' # rest)" by (simp add: terminated_def is_digit_def)
    ultimately show ?thesis
      using pv [of "CHR ''}'' # rest"] key [of "CHR ''}'' # rest"] t m Nil kv
      by (simp add: quote_def)
  next
    case (Cons kv2 kvs2)
    with t obtain t2 ts2 where ts': "ts' = t2 # ts2" by (auto split: option.splits)
    have sep: "terminated (CHR '','' # join ts' @ CHR ''}'' # rest)"
      by (simp add: terminated_def is_digit_def)
    have "p_members m' (join ts' @ CHR ''}'' # rest) = Some (kvs, rest)"
    proof (rule IH [OF _ t(2) m(3)])
      show "kvs \<noteq> []" using Cons by simp
      show "p_value n' (t' @ r) = Some (v', r)"
        if "(k', v') \<in> set kvs" "JSON_stringify v' = Some t'" "need v' \<le> n'" "terminated r"
        for k' v' t' n' r
        using prems(4) [of k' v' t' n' r] that by simp
    qed
    with pv [OF sep] key [of "CHR '','' # join ts' @ CHR ''}'' # rest"] t m ts' kv
    show ?thesis by (simp add: consing_def quote_def)
  qed
qed

lemma p_value_stringify:
  "JSON_stringify v = Some t \<Longrightarrow> need v \<le> n \<Longrightarrow> terminated rest \<Longrightarrow>
   p_value n (t @ rest) = Some (v, rest)"
proof (induction v arbitrary: t n rest)
  case JNull
  then obtain m where n: "n = Suc m" by (cases n) auto
  from JNull have t: "t = ''null''" by simp
  show ?case unfolding n t by (simp add: p_literal_def)
next
  case (JBool b)
  then obtain m where n: "n = Suc m" by (cases n) auto
  from JBool have t: "t = (if b then ''true'' else ''false'')" by simp
  show ?case unfolding n t by (cases b) (simp_all add: p_literal_def)
next
  case (JNum i)
  then obtain m where n: "n = Suc m" by (cases n) auto
  obtain d ds where d: "show_int i = d # ds" "is_digit d \<or> d = CHR ''-''"
    using show_int_hd by blast
  then have "d \<noteq> CHR 0x22" "d \<noteq> CHR ''[''" "d \<noteq> CHR ''{''" "d \<noteq> CHR ''n''"
    "d \<noteq> CHR ''t''" "d \<noteq> CHR ''f''"
    by (auto simp: is_digit_def)
  moreover have "p_number (d # ds @ rest) = Some (JNum i, rest)"
    using p_number_show_int [OF JNum.prems(3), of i] d by simp
  moreover from JNum have "t = show_int i" by simp
  ultimately show ?case using n d by simp
next
  case (JBigInt i)
  then show ?case by simp
next
  case (JStr s)
  then obtain m where n: "n = Suc m" by (cases n) auto
  from JStr have t: "t = quote s" by simp
  show ?case unfolding n t by (simp add: quote_def p_string_quoted)
next
  case (JArr vs)
  from JArr.prems(2) obtain m where n: "n = Suc m"
    "foldr (\<lambda>n acc. Suc (max n acc)) (map need vs) 0 \<le> m" by (cases n) auto
  from JArr.prems(1) obtain ts where ts: "sequence (map JSON_stringify vs) = Some ts"
    "t = CHR ''['' # join ts @ '']''" by (auto split: option.splits)
  show ?case
  proof (cases vs)
    case Nil
    with ts n show ?thesis by simp
  next
    case (Cons v vs')
    then have ne: "vs \<noteq> []" by simp
    have el: "p_elements m (join ts @ CHR '']'' # rest) = Some (vs, rest)"
      using p_elements_join [OF ne ts(1) n(2)] JArr.IH by blast
    from Cons ts obtain t1 ts1 where t1: "ts = t1 # ts1" "JSON_stringify v = Some t1"
      by (auto split: option.splits)
    from stringify_hd [OF t1(2)] obtain c cs where c: "t1 = c # cs" "c \<noteq> CHR '']''" by blast
    then obtain cs' where "join ts @ CHR '']'' # rest = c # cs'"
      using t1 by (cases ts1) auto
    with el c ts n show ?thesis by simp
  qed
next
  case (JObj kvs)
  from JObj.prems(2) obtain m where n: "n = Suc m"
    "foldr (\<lambda>n acc. Suc (max n acc)) (map (\<lambda>kv. need (snd kv)) kvs) 0 \<le> m" by (cases n) auto
  from JObj.prems(1) obtain ts where ts: "sequence (map member_text kvs) = Some ts"
    "t = CHR ''{'' # join ts @ ''}''" by (auto simp: member_text_def [abs_def] split: option.splits)
  show ?case
  proof (cases kvs)
    case Nil
    with ts n show ?thesis by simp
  next
    case (Cons kv kvs')
    then have ne: "kvs \<noteq> []" by simp
    have IH: "p_value n' (t' @ r) = Some (v, r)"
      if "(k, v) \<in> set kvs" "JSON_stringify v = Some t'" "need v \<le> n'" "terminated r"
      for k v t' n' r
      using JObj.IH [of "(k, v)" v t' n' r] that by simp
    have el: "p_members m (join ts @ CHR ''}'' # rest) = Some (kvs, rest)"
      using p_members_join [OF ne ts(1) n(2)] IH by blast
    from Cons ts obtain t1 ts1 where t1: "ts = t1 # ts1" "member_text kv = Some t1"
      by (auto split: option.splits)
    then obtain cs where "t1 = CHR 0x22 # cs"
      by (auto simp: member_text_def quote_def)
    then obtain cs' where "join ts @ CHR ''}'' # rest = CHR 0x22 # cs'"
      using t1 by (cases ts1) auto
    with el ts n show ?thesis by simp
  qed
qed

lemma need_fold_bound:
  assumes "sequence (map f vs) = Some ts"
    and "\<And>v t. v \<in> set vs \<Longrightarrow> f v = Some t \<Longrightarrow> g v \<le> length t"
  shows "foldr (\<lambda>n acc. Suc (max n acc)) (map g vs) 0 \<le> Suc (length (join ts))"
  using assms
proof (induction vs arbitrary: ts)
  case Nil
  then show ?case by simp
next
  case (Cons v vs)
  note IH = Cons.IH and prems = Cons.prems
  from prems(1) obtain t ts' where t: "f v = Some t" "sequence (map f vs) = Some ts'"
    "ts = t # ts'" by (auto split: option.splits)
  from prems(2) [of v t] t have gv: "g v \<le> length t" by simp
  have rest: "foldr (\<lambda>n acc. Suc (max n acc)) (map g vs) 0 \<le> Suc (length (join ts'))"
    by (rule IH [OF t(2)]) (use prems(2) in auto)
  show ?case
  proof (cases ts')
    case Nil
    with t have "vs = []" by (cases vs) (auto split: option.splits)
    with gv t Nil show ?thesis by simp
  next
    case (Cons t2 ts2)
    with gv rest t show ?thesis by simp
  qed
qed


lemma need_le_length: "JSON_stringify v = Some t \<Longrightarrow> need v \<le> length t"
proof (induction v arbitrary: t)
  case (JArr vs)
  from JArr.prems obtain ts where ts: "sequence (map JSON_stringify vs) = Some ts"
    "t = CHR ''['' # join ts @ '']''" by (auto split: option.splits)
  have "foldr (\<lambda>n acc. Suc (max n acc)) (map need vs) 0 \<le> Suc (length (join ts))"
    by (rule need_fold_bound [OF ts(1)]) (use JArr.IH in auto)
  with ts show ?case by simp
next
  case (JObj kvs)
  from JObj.prems obtain ts where ts: "sequence (map member_text kvs) = Some ts"
    "t = CHR ''{'' # join ts @ ''}''"
    by (auto simp: member_text_def [abs_def] split: option.splits)
  have "foldr (\<lambda>n acc. Suc (max n acc)) (map (\<lambda>kv. need (snd kv)) kvs) 0
          \<le> Suc (length (join ts))"
  proof (rule need_fold_bound [OF ts(1)])
    fix kv t'
    assume kv: "kv \<in> set kvs" "member_text kv = Some t'"
    then obtain t0 where t0: "JSON_stringify (snd kv) = Some t0"
      "t' = quote (fst kv) @ CHR '':'' # t0"
      by (auto simp: member_text_def)
    have "snd kv \<in> Basic_BNFs.snds kv" by (cases kv) simp
    with JObj.IH [OF kv(1) _ t0(1)] have "need (snd kv) \<le> length t0" by simp
    with t0 show "need (snd kv) \<le> length t'" by simp
  qed
  with ts show ?case by simp
qed (auto simp: Suc_le_eq quote_def show_int_def digits_nonempty)

lemma JSON_parse_stringify: "JSON_stringify v = Some t \<Longrightarrow> JSON_parse t = Some v"
proof -
  assume t: "JSON_stringify v = Some t"
  have "terminated []" by (simp add: terminated_def)
  with t need_le_length [OF t] have "p_value (Suc (length t)) (t @ []) = Some (v, [])"
    by (intro p_value_stringify) simp_all
  then show ?thesis by (simp add: JSON_parse_def)
qed


section \<open>Properties of the middleware\<close>

lemma respond_originalJson: "respond originalJson atts w = (first_sent atts, w)"
  by (induction atts) (auto simp: originalJson_def split: option.splits)

lemma next_original:
  "next_handler originalJson nx (c, tr) =
     \<lparr>response = first_sent (attempts nx),
        store = (if connection_lost nx then c\<lparr>isOpen := False\<rparr> else c),
        trace = tr, handler_calls = 1\<rparr>"
  by (simp add: next_handler_def respond_originalJson)





lemma respond_caching:
  "respond (caching_json key ttl now) atts (c, tr) =
     (case first_sent atts of
        None \<Rightarrow> (None, (c, tr))
      | Some r \<Rightarrow>
          (Some r,
           if isOpen c
           then (case client_setEx c now key ttl (body r) of Inl err \<Rightarrow> c | Inr c' \<Rightarrow> c',
                 tr @ [SetEx key ttl (body r)])
           else (c, tr)))"
proof (induction atts)
  case Nil
  then show ?case by simp
next
  case (Cons a atts)
  show ?case
  proof (cases "JSON_stringify (snd a)")
    case None
    then have "caching_json key ttl now a (c, tr) = (None, (c, tr))"
      by (simp add: caching_json_def originalJson_def express_json_def)
    with None Cons.IH show ?thesis by (simp add: express_json_def)
  next
    case (Some t)
    then show ?thesis
      by (simp add: caching_json_def originalJson_def express_json_def)
  qed
qed

lemma next_caching:
  "next_handler (caching_json key ttl now) nx (c, tr) =
     (let c0 = (if connection_lost nx then c\<lparr>isOpen := False\<rparr> else c)
      in case first_sent (attempts nx) of
           None \<Rightarrow> \<lparr>response = None, store = c0, trace = tr, handler_calls = 1\<rparr>
         | Some r \<Rightarrow>
             \<lparr>response = Some r,
                store = (if isOpen c0
                         then (case client_setEx c0 now key ttl (body r) of
                                 Inl err \<Rightarrow> c0 | Inr c' \<Rightarrow> c')
                         else c0),
                trace = (if isOpen c0 then tr @ [SetEx key ttl (body r)] else tr),
                handler_calls = 1\<rparr>)"
  by (simp add: next_handler_def respond_caching Let_def split: option.splits)

lemma lookup_setEx:
  "client_setEx c now k ttl v = Inr c' \<Longrightarrow>
   lookup c' t k' =
     (if k' = k then (if t < now + ttl then Some v else None) else lookup c t k')"
  by (auto simp: client_setEx_def lookup_def update_conv' split: if_splits)

lemma setEx_only_on_miss:
  assumes "SetEx k t v \<in> set (trace (cacheMiddleware ttl now req nx c))"
  shows "cache_miss now req c \<and> k = cacheKey req \<and> t = ttl \<and>
         (\<exists>r. response (cacheMiddleware ttl now req nx c) = Some r \<and> body r = v) \<and>
         handler_calls (cacheMiddleware ttl now req nx c) = 1"
  using assms
  by (auto simp: cacheMiddleware_def next_original next_caching cache_miss_def Let_def
           split: sum.splits option.splits if_splits)

lemma entries_change_only_by_setEx:
  assumes "entries (store (cacheMiddleware ttl now req nx c)) \<noteq> entries c"
  shows "\<exists>v. SetEx (cacheKey req) ttl v \<in> set (trace (cacheMiddleware ttl now req nx c))"
  using assms
  by (auto simp: cacheMiddleware_def next_original next_caching Let_def
           split: sum.splits option.splits if_splits)

lemma categories_text:
  \<open>JSON_stringify categories_payload
     = Some ''{"success":true,"data":{"categories":["Food",42]}}''\<close>
  by (simp add: categories_payload_def quote_def escape_char_def show_int_def
                digits.simps digit_char_def)

lemma categories_parse:
  \<open>JSON_parse ''{"success":true,"data":{"categories":["Food",42]}}''
     = Some categories_payload\<close>
  unfolding categories_payload_def by code_simp

lemma categories_key: "cacheKey get_categories = ''cache:/api/categories:42''"
  by (simp add: cacheKey_def principal_def get_categories_def show_int_def
                digits.simps digit_char_def)

text \<open>
  Each fault of the cache keeps the hit branch from completing: the store not open, a
  rejected \<^verbatim>\<open>get\<close>, a cached text that does not parse. A rejected \<^verbatim>\<open>setEx\<close>, a
  connection lost meanwhile and a payload that cannot be serialised occur on a miss.
\<close>

lemma cache_faults_not_served:
  assumes "\<not> isOpen c \<or> GET \<in> rejecting c \<or>
           (\<exists>cached. lookup c now (cacheKey req) = Some cached \<and> JSON_parse cached = None) \<or>
           cache_miss now req c"
  shows "\<not> served_from_cache now req c"
  using assms
  by (auto simp: served_from_cache_def cache_miss_def client_get_def refused_def
           split: option.splits)



text \<open>
  Claim C7: a request whose method is not GET, and any request while the store reports
  that it is not open, goes straight to the handler: the middleware issues no store
  command (no read, no write), leaves the entries as they are, and the handler runs once
  with \<^verbatim>\<open>res.json\<close> untouched.
\<close>

theorem cacheMiddleware_bypass:
  assumes "method req \<noteq> ''GET'' \<or> \<not> isOpen c"
  shows "trace (cacheMiddleware ttl now req nx c) = [] \<and>
         handler_calls (cacheMiddleware ttl now req nx c) = 1 \<and>
         response (cacheMiddleware ttl now req nx c) = first_sent (attempts nx) \<and>
         entries (store (cacheMiddleware ttl now req nx c)) = entries c"
  using assms by (auto simp: cacheMiddleware_def next_original)

theorem cacheMiddleware_bypass_witness:
  \<open>method (get_categories\<lparr>method := ''POST''\<rparr>) \<noteq> ''GET'' \<and>
   trace (cacheMiddleware 3600 0 (get_categories\<lparr>method := ''POST''\<rparr>) categories_handler
            empty_store) = [] \<and>
   handler_calls (cacheMiddleware 3600 0 (get_categories\<lparr>method := ''POST''\<rparr>)
                    categories_handler empty_store) = 1 \<and>
   response (cacheMiddleware 3600 0 (get_categories\<lparr>method := ''POST''\<rparr>)
               categories_handler empty_store)
     = Some \<lparr>status = 200, body = ''{"success":true,"data":{"categories":["Food",42]}}''\<rparr>\<close>
  using cacheMiddleware_bypass
    [of "get_categories\<lparr>method := ''POST''\<rparr>" empty_store 3600 0 categories_handler]
  by (simp add: express_json_def categories_text categories_handler_def get_categories_def)



text \<open>
  Claim C10: when the store answers with a cached text, the middleware issues the one
  \<^verbatim>\<open>get\<close> and nothing else, and the entries, values and expiry instants, are what
  they were. A \<^verbatim>\<open>setEx\<close> is issued only on a miss, for the key of the request and
  with the route's expiry time, when the handler has sent the response whose body it
  stores; and the entries change only through such a \<^verbatim>\<open>setEx\<close>.
\<close>

theorem hit_never_rewrites:
  assumes "r = cacheMiddleware ttl now req nx c"
  shows "(method req = ''GET'' \<and> isOpen c \<and>
          client_get c now (cacheKey req) = Inr (Some cachedData) \<and> cachedData \<noteq> []
            \<longrightarrow> trace r = [Get (cacheKey req)] \<and> entries (store r) = entries c) \<and>
         (SetEx k t v \<in> set (trace r)
            \<longrightarrow> cache_miss now req c \<and> k = cacheKey req \<and> t = ttl \<and>
                handler_calls r = 1 \<and> (\<exists>sent. response r = Some sent \<and> body sent = v)) \<and>
         (entries (store r) \<noteq> entries c
            \<longrightarrow> (\<exists>w. SetEx (cacheKey req) ttl w \<in> set (trace r)))"
proof (intro conjI impI)
  assume "method req = ''GET'' \<and> isOpen c \<and>
          client_get c now (cacheKey req) = Inr (Some cachedData) \<and> cachedData \<noteq> []"
  then show "trace r = [Get (cacheKey req)]" "entries (store r) = entries c"
    unfolding assms by (auto simp: cacheMiddleware_def next_original split: option.splits)
next
  assume "SetEx k t v \<in> set (trace r)"
  then have *: "cache_miss now req c \<and> k = cacheKey req \<and> t = ttl \<and>
         (\<exists>sent. response r = Some sent \<and> body sent = v) \<and> handler_calls r = 1"
    unfolding assms by (rule setEx_only_on_miss)
  from * show "cache_miss now req c" by simp
  from * show "k = cacheKey req" by simp
  from * show "t = ttl" by simp
  from * show "handler_calls r = 1" by simp
  from * show "\<exists>sent. response r = Some sent \<and> body sent = v" by simp
next
  assume "entries (store r) \<noteq> entries c"
  then show "\<exists>w. SetEx (cacheKey req) ttl w \<in> set (trace r)"
    unfolding assms by (rule entries_change_only_by_setEx)
qed

theorem hit_never_rewrites_witness:
  \<open>client_get warm_store 10 (cacheKey get_categories)
     = Inr (Some ''{"success":true,"data":{"categories":["Food",42]}}'') \<and>
   trace (cacheMiddleware 3600 10 get_categories categories_handler warm_store)
     = [Get ''cache:/api/categories:42''] \<and>
   entries (store (cacheMiddleware 3600 10 get_categories categories_handler warm_store))
     = entries warm_store\<close>
proof -
  have found: \<open>client_get warm_store 10 (cacheKey get_categories)
     = Inr (Some ''{"success":true,"data":{"categories":["Food",42]}}'')\<close>
    by (simp add: categories_key client_get_def refused_def lookup_def warm_store_def)
  have "method get_categories = ''GET''" "isOpen warm_store"
    by (simp_all add: get_categories_def warm_store_def)
  with found
  have "trace (cacheMiddleware 3600 10 get_categories categories_handler warm_store)
          = [Get (cacheKey get_categories)] \<and>
        entries (store (cacheMiddleware 3600 10 get_categories categories_handler warm_store))
          = entries warm_store"
    using hit_never_rewrites
      [where ttl = 3600 and now = 10 and req = get_categories and nx = categories_handler
         and c = warm_store
         and cachedData = \<open>''{"success":true,"data":{"categories":["Food",42]}}''\<close>,
       OF refl]
    by simp
  with found show ?thesis by (simp add: categories_key)
qed

text \<open>
  Claim C4 states that an entry is created only after a successful retrieval. As stated
  it fails: the middleware caches whatever the handler passes to \<^verbatim>\<open>res.json\<close>.
  \<^verbatim>\<open>getCategory\<close> answers a category that does not exist with status 404, and that
  answer becomes a cache entry.
\<close>

theorem error_response_cached_counterexample:
  \<open>lookup empty_store 0 ''cache:/api/categories/9:42'' = None \<and>
   response (cacheMiddleware 3600 0 get_missing_category missing_category_handler empty_store)
     = Some \<lparr>status = 404, body = ''{"success":false,"message":"Category not found"}''\<rparr> \<and>
   lookup (store (cacheMiddleware 3600 0 get_missing_category missing_category_handler
                    empty_store)) 0 ''cache:/api/categories/9:42''
     = Some ''{"success":false,"message":"Category not found"}''\<close>
  by (simp add: cacheMiddleware_def next_caching client_get_def client_setEx_def refused_def
                lookup_def empty_store_def get_missing_category_def
                missing_category_handler_def getCategory_def failure_def express_json_def
                cacheKey_def principal_def show_int_def digits.simps digit_char_def
                quote_def escape_char_def)

text \<open>
  Claim C4, amended: an entry is created only on a cache miss, when the handler has sent
  a response through \<^verbatim>\<open>res.json\<close>, whatever the status of that response. On a miss
  with the connection kept and \<^verbatim>\<open>setEx\<close> accepted, the caller receives exactly the
  response the handler sends with no cache in front of it, and the entry stored under
  the key of the request is the body of that response, the serialised payload, expiring
  \<open>ttl\<close> seconds later.
\<close>

theorem miss_stores_what_was_sent:
  assumes "r = cacheMiddleware ttl now req nx c"
  shows "(cache_miss now req c \<and> \<not> connection_lost nx \<and> SETEX \<notin> rejecting c \<and> 0 < ttl \<and>
          first_sent (attempts nx) = Some sent
            \<longrightarrow> response r = Some sent \<and>
                trace r = [Get (cacheKey req), SetEx (cacheKey req) ttl (body sent)] \<and>
                map_of (entries (store r)) (cacheKey req) = Some (body sent, now + ttl) \<and>
                lookup (store r) now (cacheKey req) = Some (body sent)) \<and>
         (entries (store r) \<noteq> entries c
            \<longrightarrow> cache_miss now req c \<and> handler_calls r = 1 \<and>
                (\<exists>sent'. response r = Some sent' \<and>
                   SetEx (cacheKey req) ttl (body sent') \<in> set (trace r)))"
proof (intro conjI impI)
  assume a: "cache_miss now req c \<and> \<not> connection_lost nx \<and> SETEX \<notin> rejecting c \<and> 0 < ttl \<and>
          first_sent (attempts nx) = Some sent"
  then have "response r = Some sent \<and>
         trace r = [Get (cacheKey req), SetEx (cacheKey req) ttl (body sent)] \<and>
         map_of (entries (store r)) (cacheKey req) = Some (body sent, now + ttl) \<and>
         lookup (store r) now (cacheKey req) = Some (body sent)"
    unfolding assms
    by (auto simp: cacheMiddleware_def next_caching cache_miss_def Let_def client_setEx_def
                   refused_def lookup_def update_conv'
             split: sum.splits option.splits if_splits)
  then show "response r = Some sent"
    "trace r = [Get (cacheKey req), SetEx (cacheKey req) ttl (body sent)]"
    "map_of (entries (store r)) (cacheKey req) = Some (body sent, now + ttl)"
    "lookup (store r) now (cacheKey req) = Some (body sent)"
    by simp_all
next
  assume "entries (store r) \<noteq> entries c"
  then obtain w where w: "SetEx (cacheKey req) ttl w \<in> set (trace r)"
    unfolding assms using entries_change_only_by_setEx by blast
  then have *: "cache_miss now req c \<and> cacheKey req = cacheKey req \<and> ttl = ttl \<and>
         (\<exists>sent'. response r = Some sent' \<and> body sent' = w) \<and> handler_calls r = 1"
    unfolding assms by (rule setEx_only_on_miss)
  from * show "cache_miss now req c" by simp
  from * show "handler_calls r = 1" by simp
  from * w show "\<exists>sent'. response r = Some sent' \<and>
                   SetEx (cacheKey req) ttl (body sent') \<in> set (trace r)" by auto
qed

theorem miss_stores_what_was_sent_witness:
  \<open>cache_miss 0 get_categories empty_store \<and>
   first_sent (attempts categories_handler)
     = Some \<lparr>status = 200, body = ''{"success":true,"data":{"categories":["Food",42]}}''\<rparr> \<and>
   response (cacheMiddleware 3600 0 get_categories categories_handler empty_store)
     = Some \<lparr>status = 200, body = ''{"success":true,"data":{"categories":["Food",42]}}''\<rparr> \<and>
   trace (cacheMiddleware 3600 0 get_categories categories_handler empty_store)
     = [Get ''cache:/api/categories:42'',
        SetEx ''cache:/api/categories:42'' 3600
          ''{"success":true,"data":{"categories":["Food",42]}}''] \<and>
   lookup (store (cacheMiddleware 3600 0 get_categories categories_handler empty_store)) 0
       ''cache:/api/categories:42''
     = Some ''{"success":true,"data":{"categories":["Food",42]}}''\<close>
proof -
  have miss: "cache_miss 0 get_categories empty_store"
    by (simp add: cache_miss_def client_get_def refused_def lookup_def empty_store_def
                  get_categories_def)
  have sent: \<open>first_sent (attempts categories_handler)
     = Some \<lparr>status = 200, body = ''{"success":true,"data":{"categories":["Food",42]}}''\<rparr>\<close>
    by (simp add: categories_handler_def express_json_def categories_text)
  have "\<not> connection_lost categories_handler" "SETEX \<notin> rejecting empty_store"
    by (simp_all add: categories_handler_def empty_store_def)
  with miss sent
  have \<open>response (cacheMiddleware 3600 0 get_categories categories_handler empty_store)
          = Some \<lparr>status = 200,
                    body = ''{"success":true,"data":{"categories":["Food",42]}}''\<rparr> \<and>
        trace (cacheMiddleware 3600 0 get_categories categories_handler empty_store)
          = [Get (cacheKey get_categories),
             SetEx (cacheKey get_categories) 3600
               ''{"success":true,"data":{"categories":["Food",42]}}''] \<and>
        lookup (store (cacheMiddleware 3600 0 get_categories categories_handler empty_store))
            0 (cacheKey get_categories)
          = Some ''{"success":true,"data":{"categories":["Food",42]}}''\<close>
    using miss_stores_what_was_sent
      [where ttl = 3600 and now = 0 and req = get_categories and nx = categories_handler
         and c = empty_store
         and sent = \<open>\<lparr>status = 200,
                         body = ''{"success":true,"data":{"categories":["Food",42]}}''\<rparr>\<close>,
       OF refl]
    by simp
  with miss sent show ?thesis by (simp add: categories_key)
qed

lemma first_sent_Some:
  "first_sent atts = Some r \<Longrightarrow> \<exists>v. JSON_stringify v = Some (body r)"
  by (induction atts) (auto simp: express_json_def split: option.splits)

lemma stringify_canonical: "JSON_stringify v = Some t \<Longrightarrow> canonical t"
  by (simp add: canonical_def JSON_parse_stringify)



text \<open>The texts the middleware leaves in the store are canonical when those it found were.\<close>

lemma entries_stay_canonical:
  assumes "lookup (store (cacheMiddleware ttl now req nx c)) t k = Some cached"
  shows "lookup c t k = Some cached \<or> canonical cached"
proof (cases "entries (store (cacheMiddleware ttl now req nx c)) = entries c")
  case True
  with assms show ?thesis by (simp add: lookup_def)
next
  case False
  then obtain w where w: "SetEx (cacheKey req) ttl w \<in> set (trace (cacheMiddleware ttl now req nx c))"
    using entries_change_only_by_setEx by blast
  from setEx_only_on_miss [OF w] obtain r where
    r: "response (cacheMiddleware ttl now req nx c) = Some r" "body r = w"
      "cache_miss now req c" by blast
  then have sent: "first_sent (attempts nx) = Some r"
    by (auto simp: cacheMiddleware_def next_caching cache_miss_def Let_def
             split: sum.splits option.splits if_splits)
  then obtain v where "JSON_stringify v = Some (body r)"
    using first_sent_Some by blast
  then have can: "canonical (body r)" by (rule stringify_canonical)
  from assms r(3) sent have "lookup c t k = Some cached \<or> cached = body r"
    by (auto simp: cacheMiddleware_def next_caching cache_miss_def Let_def client_setEx_def
                   lookup_def update_conv'
             split: sum.splits option.splits if_splits)
  with can show ?thesis by auto
qed





section \<open>Properties of the invalidation\<close>

lemma map_of_filter_keys:
  "map_of (filter (\<lambda>e. fst e \<notin> S) al) k = (if k \<in> S then None else map_of al k)"
  by (induction al) auto

lemma set_matching:
  "set (matching c now pattern) = {k. lookup c now k \<noteq> None \<and> glob pattern k}"
proof -
  have "lookup c now k \<noteq> None \<Longrightarrow> k \<in> fst ` set (entries c)" for k
    by (auto simp: lookup_def split: option.splits dest!: map_of_SomeD intro: rev_image_eqI)
  then show ?thesis by (auto simp: matching_def)
qed

lemma distinct_matching: "distinct (matching c now pattern)"
  by (simp add: matching_def)

lemma clearCache_working:
  assumes "isOpen c" "KEYS \<notin> rejecting c" "DEL \<notin> rejecting c"
  shows "clearCache c now pattern =
     (if matching c now pattern = []
      then \<lparr>store_after = c, issued = [Keys pattern], logged = [], resolved = None\<rparr>
      else \<lparr>store_after =
               c\<lparr>entries := filter (\<lambda>e. fst e \<notin> set (matching c now pattern)) (entries c)\<rparr>,
             issued = [Keys pattern, Del (matching c now pattern)],
             logged = [ClearedEntries (length (matching c now pattern)) pattern],
             resolved = None\<rparr>)"
  using assms by (simp add: clearCache_def client_keys_def client_del_def refused_def)

lemma lookup_earlier: "lookup c t k = Some v \<Longrightarrow> now \<le> t \<Longrightarrow> lookup c now k = Some v"
  by (auto simp: lookup_def split: option.splits if_splits)

lemma lookup_after_clearCache:
  assumes "isOpen c" "KEYS \<notin> rejecting c" "DEL \<notin> rejecting c" "now \<le> t"
  shows "lookup (store_after (clearCache c now pattern)) t k =
           (if glob pattern k then None else lookup c t k)"
proof (cases "glob pattern k")
  case False
  then have "k \<notin> set (matching c now pattern)" by (simp add: set_matching)
  with False assms show ?thesis
    by (simp add: clearCache_working lookup_def map_of_filter_keys)
next
  case True
  show ?thesis
  proof (cases "lookup c t k")
    case None
    with True assms show ?thesis
      by (auto simp: clearCache_working lookup_def map_of_filter_keys split: option.splits)
  next
    case (Some v)
    then have "lookup c now k = Some v" using assms(4) by (rule lookup_earlier)
    with True have k: "k \<in> set (matching c now pattern)" by (simp add: set_matching)
    then have "matching c now pattern \<noteq> []" by auto
    with k True assms show ?thesis
      by (simp add: clearCache_working lookup_def map_of_filter_keys)
  qed
qed


lemma resolved_clearCache: "resolved (clearCache c now pattern) = None"
  by (auto simp: clearCache_def split: sum.splits prod.splits)

text \<open>
  Claim C6 states that clearing by pattern returns the number of keys it deleted, and 0
  when nothing matches. As stated it fails: \<^verbatim>\<open>clearCache\<close> has no \<^verbatim>\<open>return\<close> with a
  value, its promise resolves to \<^verbatim>\<open>undefined\<close>. With one matching entry it logs the
  count 1 and returns nothing; with none it returns nothing either.
\<close>

theorem clearCache_returns_no_count_counterexample:
  "logged (clearCache warm_store 10 ''cache:*/categories*'')
     = [ClearedEntries 1 ''cache:*/categories*''] \<and>
   resolved (clearCache warm_store 10 ''cache:*/categories*'') \<noteq> Some 1 \<and>
   resolved (clearCache empty_store 10 ''cache:*/categories*'') \<noteq> Some 0"
  by (simp add: clearCache_def client_keys_def client_del_def refused_def matching_def
                lookup_def warm_store_def empty_store_def)

text \<open>
  Claim C6, amended: with the store open and its \<^verbatim>\<open>keys\<close> and \<^verbatim>\<open>del\<close> commands
  accepted, \<^verbatim>\<open>clearCache\<close> deletes every key that matches the pattern and no other
  key, and resolves to no value: the number of keys deleted is only logged, and only
  when it is positive. For a pattern that matches no key it issues the \<^verbatim>\<open>keys\<close>
  command alone, deletes nothing, logs nothing and does not throw.
\<close>

theorem clearCache_deletes_matching:
  assumes "isOpen c" "KEYS \<notin> rejecting c" "DEL \<notin> rejecting c"
    and "e = clearCache c now pattern"
  shows "(\<forall>k. glob pattern k \<longrightarrow> lookup (store_after e) now k = None) \<and>
         (\<forall>k. \<not> glob pattern k \<longrightarrow> lookup (store_after e) now k = lookup c now k) \<and>
         resolved e = None \<and>
         set (matching c now pattern) = {k. lookup c now k \<noteq> None \<and> glob pattern k} \<and>
         distinct (matching c now pattern) \<and>
         (matching c now pattern = []
            \<longrightarrow> store_after e = c \<and> issued e = [Keys pattern] \<and> logged e = []) \<and>
         (matching c now pattern \<noteq> []
            \<longrightarrow> issued e = [Keys pattern, Del (matching c now pattern)] \<and>
                logged e = [ClearedEntries (length (matching c now pattern)) pattern])"
proof -
  have "lookup (store_after e) now k = (if glob pattern k then None else lookup c now k)" for k
    unfolding assms(4) using assms(1-3) by (simp add: lookup_after_clearCache)
  moreover have "resolved e = None"
    unfolding assms(4) by (rule resolved_clearCache)
  moreover have "matching c now pattern = []
            \<longrightarrow> store_after e = c \<and> issued e = [Keys pattern] \<and> logged e = []"
    unfolding assms(4) using assms(1-3) by (simp add: clearCache_working)
  moreover have "matching c now pattern \<noteq> []
            \<longrightarrow> issued e = [Keys pattern, Del (matching c now pattern)] \<and>
                logged e = [ClearedEntries (length (matching c now pattern)) pattern]"
    unfolding assms(4) using assms(1-3) by (simp add: clearCache_working)
  ultimately show ?thesis
    using set_matching [of c now pattern] distinct_matching [of c now pattern] by simp
qed

theorem clearCache_deletes_matching_witness:
  "isOpen warm_store \<and> KEYS \<notin> rejecting warm_store \<and> DEL \<notin> rejecting warm_store \<and>
   glob ''cache:*/categories*'' ''cache:/api/categories:42'' \<and>
   lookup warm_store 10 ''cache:/api/categories:42'' \<noteq> None \<and>
   lookup (store_after (clearCache warm_store 10 ''cache:*/categories*'')) 10
       ''cache:/api/categories:42'' = None \<and>
   resolved (clearCache warm_store 10 ''cache:*/categories*'') = None \<and>
   matching warm_store 10 ''cache:*/transactions*:42'' = [] \<and>
   store_after (clearCache warm_store 10 ''cache:*/transactions*:42'') = warm_store \<and>
   issued (clearCache warm_store 10 ''cache:*/transactions*:42'')
     = [Keys ''cache:*/transactions*:42'']"
proof -
  have ok: "isOpen warm_store" "KEYS \<notin> rejecting warm_store" "DEL \<notin> rejecting warm_store"
    by (simp_all add: warm_store_def)
  have g: "glob ''cache:*/categories*'' ''cache:/api/categories:42''" by simp
  have live: "lookup warm_store 10 ''cache:/api/categories:42'' \<noteq> None"
    by (simp add: lookup_def warm_store_def)
  have none: "matching warm_store 10 ''cache:*/transactions*:42'' = []"
    by (simp add: matching_def warm_store_def)
  note a = clearCache_deletes_matching
             [OF ok refl, where now = 10 and pattern = "''cache:*/categories*''"]
  note b = clearCache_deletes_matching
             [OF ok refl, where now = 10 and pattern = "''cache:*/transactions*:42''"]
  from a g have "lookup (store_after (clearCache warm_store 10 ''cache:*/categories*'')) 10
       ''cache:/api/categories:42'' = None" by blast
  moreover from a have "resolved (clearCache warm_store 10 ''cache:*/categories*'') = None"
    by blast
  moreover from b none
  have "store_after (clearCache warm_store 10 ''cache:*/transactions*:42'') = warm_store \<and>
        issued (clearCache warm_store 10 ''cache:*/transactions*:42'')
          = [Keys ''cache:*/transactions*:42'']" by blast
  ultimately show ?thesis using ok g live none by simp
qed














section \<open>Properties of the routes\<close>

text \<open>
  Claim C8: the expiry times attached to the cached routes follow the convention by
  resource class. The transactions list is cached for 300 seconds and the lookup of a
  single transaction for 600; the category list and the single category for 3600; the
  five analytics routes, the transaction summary and the category statistics for 900;
  the administration routes (users, one user, system statistics, all transactions) for
  300 to 600 seconds.
\<close>

theorem cached_routes_follow_convention:
  "list_all (\<lambda>(r, path, ttl). conventional (class_of r path) ttl) cached_routes \<and>
   route_ttl TransactionRoutes ''/'' = Some 300 \<and>
   route_ttl TransactionRoutes ''/:id'' = Some 600 \<and>
   route_ttl CategoryRoutes ''/'' = Some 3600 \<and>
   route_ttl CategoryRoutes ''/:id'' = Some 3600 \<and>
   route_ttl AnalyticsRoutes ''/monthly'' = Some 900 \<and>
   route_ttl AnalyticsRoutes ''/yearly'' = Some 900 \<and>
   route_ttl AnalyticsRoutes ''/categories'' = Some 900 \<and>
   route_ttl AnalyticsRoutes ''/trends'' = Some 900 \<and>
   route_ttl AnalyticsRoutes ''/dashboard'' = Some 900 \<and>
   route_ttl AdminRoutes ''/users'' = Some 300 \<and>
   route_ttl AdminRoutes ''/users/:id'' = Some 600 \<and>
   route_ttl AdminRoutes ''/stats'' = Some 600 \<and>
   route_ttl AdminRoutes ''/transactions'' = Some 300"
  by (simp add: cached_routes_def route_ttl_def class_of_def)

end
